theory Spec2Isabelle
  imports Complex_Main "HOL-Library.Multiset"
begin

section \<open>Retrieval and MMR re-ranking of \<open>src/retrieval/retriever.py\<close>\<close>

text \<open>
  The development embeds \<open>HybridRetriever._cosine_similarity\<close>,
  \<open>HybridRetriever._mmr_rerank\<close> and \<open>HybridRetriever.semantic_search\<close>.
  Python floats are idealised as the reals: rounding, overflow and NaN are outside the
  model. Exceptions are values of the type \<open>error\<close>; a function that may raise returns
  \<open>error + 'a\<close> with \<open>Inl\<close> for the exception.
\<close>

subsection \<open>Exceptions\<close>

text \<open>
  \<open>ValueError\<close> is what \<open>np.dot\<close>, \<open>max\<close> and \<open>list.remove\<close> raise (the
  specification's category InvalidInput). \<open>EmbeddingUnavailable\<close> and
  \<open>IndexUnavailable\<close> stand for whatever the embedding provider and the MongoDB
  collection raise; the retriever has no \<open>try\<close> block, so they pass through unchanged.
\<close>

datatype error = ValueError | EmbeddingUnavailable | IndexUnavailable

definition bind_err :: "error + 'a \<Rightarrow> ('a \<Rightarrow> error + 'b) \<Rightarrow> error + 'b" where
  "bind_err r f = (case r of Inl e \<Rightarrow> Inl e | Inr x \<Rightarrow> f x)"

fun mapM_err :: "('a \<Rightarrow> error + 'b) \<Rightarrow> 'a list \<Rightarrow> error + 'b list" where
  "mapM_err f [] = Inr []"
| "mapM_err f (x # xs) =
     bind_err (f x) (\<lambda>y. bind_err (mapM_err f xs) (\<lambda>ys. Inr (y # ys)))"

subsection \<open>Candidates\<close>

text \<open>
  A candidate is the dictionary built in \<open>semantic_search\<close> with the keys
  \<open>content\<close>, \<open>metadata\<close>, \<open>embedding\<close>, \<open>similarity\<close> and \<open>_id\<close>.
  Equality of records is equality of the dictionaries, which is what \<open>list.remove\<close> tests.
\<close>

record candidate =
  content :: string
  metadata :: "string \<rightharpoonup> string"
  embedding :: "real list"
  similarity :: real
  doc_id :: string

subsection \<open>Built-ins of Python and numpy used by the retriever\<close>

text \<open>\<open>np.dot\<close> of two one-dimensional arrays: the shapes must agree.\<close>

definition np_dot :: "real list \<Rightarrow> real list \<Rightarrow> error + real" where
  "np_dot vec1 vec2 =
     (if length vec1 \<noteq> length vec2 then Inl ValueError
      else Inr (\<Sum>(x, y)\<leftarrow>zip vec1 vec2. x * y))"

text \<open>\<open>np.linalg.norm\<close> of a one-dimensional array: the Euclidean norm.\<close>

definition np_norm :: "real list \<Rightarrow> real" where
  "np_norm vec = sqrt (\<Sum>x\<leftarrow>vec. \<bar>x\<bar> ^ 2)"

text \<open>
  \<open>max(xs, key=k)\<close>: the running best is replaced only by a strictly larger key, so the
  first maximal element is returned; an empty argument raises \<open>ValueError\<close>.
\<close>

fun max_from :: "('a \<Rightarrow> real) \<Rightarrow> 'a \<Rightarrow> 'a list \<Rightarrow> 'a" where
  "max_from key best [] = best"
| "max_from key best (x # xs) =
     (if key x > key best then max_from key x xs else max_from key best xs)"

definition py_max :: "('a \<Rightarrow> real) \<Rightarrow> 'a list \<Rightarrow> error + 'a" where
  "py_max key xs = (case xs of [] \<Rightarrow> Inl ValueError | x # rest \<Rightarrow> Inr (max_from key x rest))"

text \<open>\<open>xs.remove(x)\<close>: deletes the first element equal to \<open>x\<close>, raises if there is none.\<close>

definition py_remove :: "'a \<Rightarrow> 'a list \<Rightarrow> error + 'a list" where
  "py_remove x xs = (if x \<in> set xs then Inr (remove1 x xs) else Inl ValueError)"

text \<open>\<open>len(range(n))\<close>: a negative bound gives the empty range.\<close>

definition py_range_len :: "int \<Rightarrow> nat" where
  "py_range_len n = (if n \<le> 0 then 0 else nat n)"

text \<open>\<open>xs[:k]\<close>: a negative \<open>k\<close> counts from the end.\<close>

definition py_slice_to :: "'a list \<Rightarrow> int \<Rightarrow> 'a list" where
  "py_slice_to xs k =
     (if k \<ge> 0 then take (nat k) xs else take (nat (int (length xs) + k)) xs)"

subsection \<open>\<open>_cosine_similarity\<close>\<close>

definition cosine_similarity :: "real list \<Rightarrow> real list \<Rightarrow> error + real" where
  "cosine_similarity vec1 vec2 =
     bind_err (np_dot vec1 vec2) (\<lambda>dot_product.
       let norm1 = np_norm vec1; norm2 = np_norm vec2 in
       if norm1 = 0 \<or> norm2 = 0 then Inr 0
       else Inr (dot_product / (norm1 * norm2)))"

subsection \<open>\<open>_mmr_rerank\<close>\<close>

text \<open>The diversity term of one remaining document against the selected ones.\<close>

definition diversity_penalty :: "candidate list \<Rightarrow> candidate \<Rightarrow> error + real" where
  "diversity_penalty selected doc =
     (if selected \<noteq> [] then
        bind_err
          (mapM_err (\<lambda>sel. cosine_similarity (embedding doc) (embedding sel)) selected)
          (py_max (\<lambda>s. s))
      else Inr 0)"

definition mmr_score :: "real list \<Rightarrow> real \<Rightarrow> candidate list \<Rightarrow> candidate \<Rightarrow> error + real" where
  "mmr_score query_embedding lambda_param selected doc =
     bind_err (cosine_similarity query_embedding (embedding doc)) (\<lambda>relevance.
     bind_err (diversity_penalty selected doc) (\<lambda>penalty.
     Inr (lambda_param * relevance - (1 - lambda_param) * penalty)))"

text \<open>The list \<open>mmr_scores\<close> built by the inner loop over \<open>remaining\<close>.\<close>

definition mmr_scores ::
  "real list \<Rightarrow> real \<Rightarrow> candidate list \<Rightarrow> candidate list \<Rightarrow> error + (candidate \<times> real) list" where
  "mmr_scores query_embedding lambda_param selected remaining =
     mapM_err (\<lambda>doc. bind_err (mmr_score query_embedding lambda_param selected doc)
                        (\<lambda>s. Inr (doc, s))) remaining"

text \<open>
  One pass through the body of the outer loop after the emptiness test: score every
  remaining document, take the best, append it to \<open>selected\<close>, remove it from
  \<open>remaining\<close>. The state is the pair \<open>(selected, remaining)\<close>.
\<close>

definition mmr_iteration ::
  "real list \<Rightarrow> real \<Rightarrow> candidate list \<times> candidate list
     \<Rightarrow> error + (candidate list \<times> candidate list)" where
  "mmr_iteration query_embedding lambda_param st =
     (case st of (selected, remaining) \<Rightarrow>
        bind_err (mmr_scores query_embedding lambda_param selected remaining) (\<lambda>scores.
        bind_err (py_max snd scores) (\<lambda>best.
        bind_err (py_remove (fst best) remaining) (\<lambda>remaining'.
        Inr (selected @ [fst best], remaining')))))"

text \<open>
  The outer \<open>for _ in range(...)\<close> loop: the first argument counts the iterations the
  range still allows; \<open>if not remaining: break\<close> leaves early.
\<close>

fun mmr_loop ::
  "real list \<Rightarrow> real \<Rightarrow> nat \<Rightarrow> candidate list \<times> candidate list
     \<Rightarrow> error + (candidate list \<times> candidate list)" where
  "mmr_loop query_embedding lambda_param 0 st = Inr st"
| "mmr_loop query_embedding lambda_param (Suc n) st =
     (if snd st = [] then Inr st
      else bind_err (mmr_iteration query_embedding lambda_param st)
             (mmr_loop query_embedding lambda_param n))"

definition mmr_rerank ::
  "real list \<Rightarrow> candidate list \<Rightarrow> int \<Rightarrow> real \<Rightarrow> error + candidate list" where
  "mmr_rerank query_embedding candidates top_k lambda_param =
     (if candidates = [] then Inr []
      else bind_err
             (mmr_loop query_embedding lambda_param
                (py_range_len (min top_k (int (length candidates)))) ([], candidates))
             (\<lambda>st. Inr (fst st)))"

subsection \<open>\<open>semantic_search\<close>\<close>

text \<open>
  The two collaborators are parameters: \<open>generate_embedding\<close> of the
  \<open>EmbeddingGenerator\<close> and \<open>aggregate\<close> of the MongoDB collection, each of which
  returns or raises; \<open>default_top_k\<close> is \<open>config.TOP_K\<close>. A document is what the
  \<open>$project\<close> stage lets through; \<open>$vectorSearch\<close> on the path \<open>embedding\<close> only
  yields documents that have that field, and \<open>score\<close> is read with the default 0.0.
\<close>

record document =
  d_content :: string
  d_metadata :: "string \<rightharpoonup> string"
  d_embedding :: "real list"
  d_score :: "real option"
  d_id :: string

datatype 'f stage = VectorSearch "real list" int | Project | Match 'f

record 'f services =
  generate_embedding :: "string \<Rightarrow> error + real list"
  aggregate :: "'f stage list \<Rightarrow> error + document list"
  default_top_k :: int

text \<open>The calls made to the collaborators, in order.\<close>

datatype 'f call = EmbedCall string | AggregateCall "'f stage list"

definition to_candidate :: "document \<Rightarrow> candidate" where
  "to_candidate doc =
     \<lparr>content = d_content doc, metadata = d_metadata doc, embedding = d_embedding doc,
      similarity = (case d_score doc of None \<Rightarrow> 0 | Some s \<Rightarrow> s), doc_id = d_id doc\<rparr>"

text \<open>A returned result: the candidate after \<open>result.pop("embedding", None)\<close>.\<close>

record result =
  r_content :: string
  r_metadata :: "string \<rightharpoonup> string"
  r_similarity :: real
  r_id :: string

definition pop_embedding :: "candidate \<Rightarrow> result" where
  "pop_embedding c =
     \<lparr>r_content = content c, r_metadata = metadata c, r_similarity = similarity c,
      r_id = doc_id c\<rparr>"

text \<open>
  \<open>filters\<close> is \<open>None\<close> for a missing or empty filter (both are falsy in
  \<open>if filters:\<close>). The function returns its result or exception together with the
  calls it made.
\<close>

definition semantic_search ::
  "'f services \<Rightarrow> string \<Rightarrow> 'f option \<Rightarrow> int option \<Rightarrow> bool \<Rightarrow> real
     \<Rightarrow> (error + result list) \<times> 'f call list" where
  "semantic_search svc query filters top_k_arg use_mmr lambda_param =
     (let top_k = (case top_k_arg of None \<Rightarrow> default_top_k svc | Some k \<Rightarrow> k) in
      case generate_embedding svc query of
        Inl e \<Rightarrow> (Inl e, [EmbedCall query])
      | Inr query_embedding \<Rightarrow>
          let fetch_limit = (if use_mmr then top_k * 3 else top_k);
              pipeline = [VectorSearch query_embedding fetch_limit, Project]
                           @ (case filters of None \<Rightarrow> [] | Some f \<Rightarrow> [Match f])
          in case aggregate svc pipeline of
               Inl e \<Rightarrow> (Inl e, [EmbedCall query, AggregateCall pipeline])
             | Inr docs \<Rightarrow>
                 let candidates = map to_candidate docs;
                     results =
                       (if use_mmr \<and> length candidates > 0
                        then mmr_rerank query_embedding candidates top_k lambda_param
                        else Inr (py_slice_to candidates top_k))
                 in (bind_err results (\<lambda>rs. Inr (map pop_embedding rs)),
                     [EmbedCall query, AggregateCall pipeline]))"

subsection \<open>Quantities the statements are written with\<close>

text \<open>
  The cosine of two vectors as a number, the relevance of a candidate (its similarity to
  the query), and agreement of every candidate's dimension with the query's.
\<close>

definition cosine :: "real list \<Rightarrow> real list \<Rightarrow> real" where
  "cosine a b =
     (if np_norm a = 0 \<or> np_norm b = 0 then 0
      else (\<Sum>(x, y)\<leftarrow>zip a b. x * y) / (np_norm a * np_norm b))"

definition relevance :: "real list \<Rightarrow> candidate \<Rightarrow> real" where
  "relevance q c = cosine q (embedding c)"

definition dims_ok :: "real list \<Rightarrow> candidate list \<Rightarrow> bool" where
  "dims_ok q cs = list_all (\<lambda>c. length (embedding c) = length q) cs"

text \<open>
  The specification's ordering at \<open>lambda = 1\<close>: the candidates sorted by descending
  similarity to the query, ties in input order. \<open>sort_key\<close> is the stable insertion sort.
\<close>

definition sorted_by_relevance :: "real list \<Rightarrow> candidate list \<Rightarrow> candidate list" where
  "sorted_by_relevance q cs = sort_key (\<lambda>c. - relevance q c) cs"


text \<open>A candidate with a name and an embedding, for concrete pools.\<close>

definition cand :: "string \<Rightarrow> real list \<Rightarrow> candidate" where
  "cand name emb =
     \<lparr>content = name, metadata = Map.empty, embedding = emb, similarity = 0, doc_id = name\<rparr>"

section \<open>Auxiliary facts\<close>

lemma bind_err_simps [simp]:
  "bind_err (Inl e) f = Inl e"
  "bind_err (Inr x) f = f x"
  by (simp_all add: bind_err_def)

lemma bind_err_eq_Inr:
  "bind_err r f = Inr y \<longleftrightarrow> (\<exists>x. r = Inr x \<and> f x = Inr y)"
  by (cases r) simp_all

lemma mapM_err_Inr:
  "mapM_err f xs = Inr ys \<Longrightarrow> ys = map (\<lambda>x. projr (f x)) xs \<and> (\<forall>x\<in>set xs. f x = Inr (projr (f x)))"
proof (induction xs arbitrary: ys)
  case Nil
  then show ?case by simp
next
  case (Cons x xs)
  from Cons.prems obtain y ys' where fx: "f x = Inr y" and rest: "mapM_err f xs = Inr ys'"
    and ys: "ys = y # ys'"
    by (auto simp: bind_err_eq_Inr)
  from Cons.IH [OF rest] fx ys show ?case by simp
qed

lemma mapM_err_total:
  "(\<forall>x\<in>set xs. f x = Inr (g x)) \<Longrightarrow> mapM_err f xs = Inr (map g xs)"
  by (induction xs) simp_all

lemma max_from_ge: "key best \<le> key (max_from key best xs)"
proof (induction xs arbitrary: best)
  case Nil
  show ?case by simp
next
  case (Cons x xs)
  show ?case
  proof (cases "key x > key best")
    case True
    have "key x \<le> key (max_from key x xs)" by (rule Cons.IH)
    with True show ?thesis by simp
  next
    case False
    with Cons.IH [of best] show ?thesis by simp
  qed
qed

lemma max_from_split:
  "\<exists>pre post. x # xs = pre @ max_from key x xs # post
     \<and> (\<forall>a\<in>set pre. key a < key (max_from key x xs))
     \<and> (\<forall>a\<in>set post. key a \<le> key (max_from key x xs))"
proof (induction xs arbitrary: x)
  case Nil
  show ?case by (rule exI [where x = "[]"]) simp
next
  case (Cons y ys)
  show ?case
  proof (cases "key y > key x")
    case True
    define m where "m = max_from key y ys"
    from Cons.IH [of y] obtain pre post where
      s: "y # ys = pre @ m # post"
      and l: "\<forall>a\<in>set pre. key a < key m"
      and r: "\<forall>a\<in>set post. key a \<le> key m" unfolding m_def by blast
    have "key y \<le> key m" unfolding m_def by (rule max_from_ge)
    with True have kx: "key x < key m" by simp
    have m_eq: "max_from key x (y # ys) = m" using True by (simp add: m_def)
    have "x # y # ys = (x # pre) @ m # post" using s by simp
    moreover have "\<forall>a\<in>set (x # pre). key a < key m" using l kx by simp
    ultimately show ?thesis unfolding m_eq using r by blast
  next
    case False
    define m where "m = max_from key x ys"
    from Cons.IH [of x] obtain pre post where
      s: "x # ys = pre @ m # post"
      and l: "\<forall>a\<in>set pre. key a < key m"
      and r: "\<forall>a\<in>set post. key a \<le> key m" unfolding m_def by blast
    have m_eq: "max_from key x (y # ys) = m" using False by (simp add: m_def)
    show ?thesis
    proof (cases pre)
      case Nil
      with s have mx: "m = x" and ys: "ys = post" by simp_all
      have "x # y # ys = [] @ m # (y # post)" using mx ys by simp
      moreover have "\<forall>a\<in>set (y # post). key a \<le> key m" using r False mx by simp
      ultimately show ?thesis unfolding m_eq by (metis empty_iff list.set(1))
    next
      case (Cons p ps)
      with s have p: "p = x" and ys: "ys = ps @ m # post" by simp_all
      from l Cons p have kx: "key x < key m" by simp
      with False have ky: "key y < key m" by simp
      have "x # y # ys = (x # y # ps) @ m # post" using ys by simp
      moreover have "\<forall>a\<in>set (x # y # ps). key a < key m" using l Cons kx ky by simp
      ultimately show ?thesis unfolding m_eq using r by blast
    qed
  qed
qed


lemma max_from_mem: "max_from key x xs \<in> set (x # xs)"
proof -
  from max_from_split [of x xs key] obtain pre post
    where "x # xs = pre @ max_from key x xs # post" by blast
  then have "set (x # xs) = set (pre @ max_from key x xs # post)" by simp
  then show ?thesis by simp
qed

lemma max_from_tagged:
  "max_from snd (x, g x) (map (\<lambda>d. (d, g d)) xs) = (max_from g x xs, g (max_from g x xs))"
  by (induction xs arbitrary: x) simp_all

lemma py_max_tagged:
  "py_max snd (map (\<lambda>d. (d, g d)) (x # xs)) = Inr (max_from g x xs, g (max_from g x xs))"
  by (simp add: py_max_def max_from_tagged)

lemma mmr_scores_Inr:
  assumes "mmr_scores q lam sel rem = Inr scores"
  shows "scores = map (\<lambda>d. (d, projr (mmr_score q lam sel d))) rem"
    and "\<forall>d\<in>set rem. mmr_score q lam sel d = Inr (projr (mmr_score q lam sel d))"
proof -
  let ?f = "\<lambda>doc. bind_err (mmr_score q lam sel doc) (\<lambda>s. Inr (doc, s))"
  from assms have m: "mapM_err ?f rem = Inr scores" by (simp add: mmr_scores_def)
  from mapM_err_Inr [OF m] have ys: "scores = map (\<lambda>x. projr (?f x)) rem"
    and ok: "\<forall>x\<in>set rem. ?f x = Inr (projr (?f x))" by simp_all
  have each: "mmr_score q lam sel d = Inr (projr (mmr_score q lam sel d))
      \<and> projr (?f d) = (d, projr (mmr_score q lam sel d))" if "d \<in> set rem" for d
  proof -
    from ok that have "?f d = Inr (projr (?f d))" by blast
    then obtain s where "mmr_score q lam sel d = Inr s" by (auto simp: bind_err_eq_Inr)
    then show ?thesis by simp
  qed
  from each show "\<forall>d\<in>set rem. mmr_score q lam sel d = Inr (projr (mmr_score q lam sel d))"
    by blast
  from ys each show "scores = map (\<lambda>d. (d, projr (mmr_score q lam sel d))) rem"
    by simp
qed

lemma mmr_scores_total:
  assumes "\<forall>d\<in>set rem. \<exists>s. mmr_score q lam sel d = Inr s"
  shows "mmr_scores q lam sel rem = Inr (map (\<lambda>d. (d, projr (mmr_score q lam sel d))) rem)"
proof -
  have "\<forall>d\<in>set rem. bind_err (mmr_score q lam sel d) (\<lambda>s. Inr (d, s))
          = Inr (d, projr (mmr_score q lam sel d))"
    using assms by auto
  then show ?thesis unfolding mmr_scores_def by (rule mapM_err_total)
qed

lemma remove1_split: "x \<notin> set pre \<Longrightarrow> remove1 x (pre @ x # post) = pre @ post"
  by (induction pre) auto

lemma mmr_iteration_scored:
  assumes sc: "mmr_scores q lam sel (x # xs) = Inr scores"
  shows "\<exists>pre best post. x # xs = pre @ best # post
      \<and> mmr_iteration q lam (sel, x # xs) = Inr (sel @ [best], pre @ post)
      \<and> (\<forall>d\<in>set (x # xs). mmr_score q lam sel d = Inr (projr (mmr_score q lam sel d)))
      \<and> (\<forall>d\<in>set pre. projr (mmr_score q lam sel d) < projr (mmr_score q lam sel best))
      \<and> (\<forall>d\<in>set post. projr (mmr_score q lam sel d) \<le> projr (mmr_score q lam sel best))"
proof -
  let ?g = "\<lambda>d. projr (mmr_score q lam sel d)"
  define best where "best = max_from ?g x xs"
  from mmr_scores_Inr [OF sc] have scores: "scores = map (\<lambda>d. (d, ?g d)) (x # xs)"
    and ok: "\<forall>d\<in>set (x # xs). mmr_score q lam sel d = Inr (?g d)" by simp_all
  from max_from_split [of x xs ?g] obtain pre post where
    split: "x # xs = pre @ best # post"
    and l: "\<forall>a\<in>set pre. ?g a < ?g best"
    and r: "\<forall>a\<in>set post. ?g a \<le> ?g best" unfolding best_def by blast
  from l have "best \<notin> set pre" by auto
  then have rm: "remove1 best (x # xs) = pre @ post" unfolding split by (rule remove1_split)
  have mem: "best \<in> set (x # xs)" unfolding best_def by (rule max_from_mem)
  have pm: "py_max snd scores = Inr (best, ?g best)"
    unfolding scores best_def by (rule py_max_tagged)
  have "mmr_iteration q lam (sel, x # xs) = Inr (sel @ [best], pre @ post)"
    using sc pm mem rm by (simp add: mmr_iteration_def py_remove_def)
  with split ok l r show ?thesis by blast
qed

lemma mmr_iteration_Inr:
  assumes "mmr_iteration q lam (sel, rem) = Inr st'"
  shows "\<exists>pre best post. rem = pre @ best # post
      \<and> st' = (sel @ [best], pre @ post)
      \<and> (\<forall>d\<in>set rem. mmr_score q lam sel d = Inr (projr (mmr_score q lam sel d)))
      \<and> (\<forall>d\<in>set pre. projr (mmr_score q lam sel d) < projr (mmr_score q lam sel best))
      \<and> (\<forall>d\<in>set post. projr (mmr_score q lam sel d) \<le> projr (mmr_score q lam sel best))"
proof -
  from assms obtain scores where sc: "mmr_scores q lam sel rem = Inr scores"
    by (auto simp: mmr_iteration_def bind_err_eq_Inr)
  from assms sc obtain b where "py_max snd scores = Inr b"
    by (auto simp: mmr_iteration_def bind_err_eq_Inr)
  then have "scores \<noteq> []" by (auto simp: py_max_def)
  with mmr_scores_Inr(1) [OF sc] obtain x xs where rem: "rem = x # xs"
    by (cases rem) auto
  from mmr_iteration_scored [OF sc [unfolded rem]] assms rem show ?thesis by auto
qed


lemma cosine_similarity_eq:
  "length a = length b \<Longrightarrow> cosine_similarity a b = Inr (cosine a b)"
  by (simp add: cosine_similarity_def np_dot_def cosine_def Let_def)

lemma dims_ok_simps [simp]:
  "dims_ok q []"
  "dims_ok q (c # cs) \<longleftrightarrow> length (embedding c) = length q \<and> dims_ok q cs"
  "dims_ok q (xs @ ys) \<longleftrightarrow> dims_ok q xs \<and> dims_ok q ys"
  by (simp_all add: dims_ok_def)

lemma dims_okD: "dims_ok q cs \<Longrightarrow> c \<in> set cs \<Longrightarrow> length (embedding c) = length q"
  by (simp add: dims_ok_def list_all_iff)

lemma diversity_penalty_ok:
  assumes "dims_ok q sel" and "length (embedding d) = length q"
  shows "\<exists>p. diversity_penalty sel d = Inr p"
proof (cases sel)
  case Nil
  then show ?thesis by (simp add: diversity_penalty_def)
next
  case (Cons s ss)
  have "\<forall>c\<in>set sel. cosine_similarity (embedding d) (embedding c)
          = Inr (cosine (embedding d) (embedding c))"
    using assms by (auto intro!: cosine_similarity_eq dest: dims_okD)
  then have "mapM_err (\<lambda>c. cosine_similarity (embedding d) (embedding c)) sel
          = Inr (map (\<lambda>c. cosine (embedding d) (embedding c)) sel)"
    by (rule mapM_err_total)
  then show ?thesis using Cons by (simp add: diversity_penalty_def py_max_def)
qed

lemma mmr_score_ok:
  assumes "dims_ok q sel" and "length (embedding d) = length q"
  shows "\<exists>p. diversity_penalty sel d = Inr p
           \<and> mmr_score q lam sel d = Inr (lam * relevance q d - (1 - lam) * p)"
proof -
  from diversity_penalty_ok [OF assms] obtain p where "diversity_penalty sel d = Inr p" ..
  moreover have "cosine_similarity q (embedding d) = Inr (relevance q d)"
    using assms(2) by (simp add: cosine_similarity_eq relevance_def)
  ultimately show ?thesis by (simp add: mmr_score_def)
qed


lemma mmr_iteration_ok:
  assumes "dims_ok q sel" and "dims_ok q rem" and "rem \<noteq> []"
  shows "\<exists>st'. mmr_iteration q lam (sel, rem) = Inr st'"
proof -
  from assms(3) obtain x xs where rem: "rem = x # xs" by (cases rem) auto
  have "\<forall>d\<in>set rem. \<exists>s. mmr_score q lam sel d = Inr s"
    using mmr_score_ok [OF assms(1)] dims_okD [OF assms(2)] by blast
  then have "mmr_scores q lam sel (x # xs)
      = Inr (map (\<lambda>d. (d, projr (mmr_score q lam sel d))) (x # xs))"
    unfolding rem by (rule mmr_scores_total)
  from mmr_iteration_scored [OF this] show ?thesis unfolding rem by blast
qed

lemma mmr_iteration_dims:
  assumes "mmr_iteration q lam (sel, rem) = Inr (sel', rem')"
    and "dims_ok q sel" and "dims_ok q rem"
  shows "dims_ok q sel' \<and> dims_ok q rem'"
proof -
  from mmr_iteration_Inr [OF assms(1)] obtain pre best post where
    "rem = pre @ best # post" "(sel', rem') = (sel @ [best], pre @ post)" by blast
  with assms(2,3) show ?thesis by simp
qed

lemma mmr_loop_inv:
  "mmr_loop q lam n (sel, rem) = Inr (sel', rem') \<Longrightarrow>
     mset sel' + mset rem' = mset sel + mset rem
     \<and> length sel' = length sel + min n (length rem)
     \<and> (\<exists>new. sel' = sel @ new)"
proof (induction n arbitrary: sel rem)
  case 0
  then show ?case by simp
next
  case (Suc n)
  show ?case
  proof (cases "rem = []")
    case True
    with Suc.prems show ?thesis by simp
  next
    case False
    with Suc.prems obtain st where it: "mmr_iteration q lam (sel, rem) = Inr st"
      and loop: "mmr_loop q lam n st = Inr (sel', rem')"
      by (auto simp: bind_err_eq_Inr)
    from mmr_iteration_Inr [OF it] obtain pre best post where
      rem: "rem = pre @ best # post" and st: "st = (sel @ [best], pre @ post)" by blast
    from Suc.IH [OF loop [unfolded st]] show ?thesis unfolding rem by auto
  qed
qed

lemma mmr_loop_ok:
  "dims_ok q sel \<Longrightarrow> dims_ok q rem \<Longrightarrow> \<exists>st'. mmr_loop q lam n (sel, rem) = Inr st'"
proof (induction n arbitrary: sel rem)
  case 0
  show ?case by simp
next
  case (Suc n)
  show ?case
  proof (cases "rem = []")
    case True
    then show ?thesis by simp
  next
    case False
    from mmr_iteration_ok [OF Suc.prems False] obtain sel1 rem1
      where it: "mmr_iteration q lam (sel, rem) = Inr (sel1, rem1)" by (metis surj_pair)
    from mmr_iteration_dims [OF it Suc.prems] Suc.IH [of sel1 rem1]
    obtain st' where "mmr_loop q lam n (sel1, rem1) = Inr st'" by blast
    with it False show ?thesis by simp
  qed
qed

lemma mmr_rerank_ok:
  assumes "dims_ok q cs"
  shows "\<exists>res. mmr_rerank q cs top_k lam = Inr res"
proof (cases "cs = []")
  case True
  then show ?thesis by (simp add: mmr_rerank_def)
next
  case False
  have "dims_ok q []" by simp
  from mmr_loop_ok [OF this assms]
  obtain st' where "mmr_loop q lam (py_range_len (min top_k (int (length cs)))) ([], cs) = Inr st'"
    by blast
  with False show ?thesis by (simp add: mmr_rerank_def)
qed

lemma mmr_rerank_Inr:
  assumes "mmr_rerank q cs top_k lam = Inr res"
  shows "\<exists>rem'. mset res + mset rem' = mset cs"
    and "length res = py_range_len (min top_k (int (length cs)))"
proof -
  have "(\<exists>rem'. mset res + mset rem' = mset cs)
      \<and> length res = py_range_len (min top_k (int (length cs)))"
  proof (cases "cs = []")
    case True
    with assms show ?thesis by (simp add: mmr_rerank_def py_range_len_def)
  next
    case False
    with assms obtain rem' where
      "mmr_loop q lam (py_range_len (min top_k (int (length cs)))) ([], cs) = Inr (res, rem')"
      by (auto simp: mmr_rerank_def bind_err_eq_Inr)
    from mmr_loop_inv [OF this] show ?thesis
      by (auto simp: py_range_len_def min_def)
  qed
  then show "\<exists>rem'. mset res + mset rem' = mset cs"
    and "length res = py_range_len (min top_k (int (length cs)))" by simp_all
qed


lemmas mmr_eval =
  mmr_rerank_def py_range_len_def mmr_iteration_def mmr_scores_def mmr_score_def
  diversity_penalty_def cosine_similarity_def np_dot_def np_norm_def py_max_def py_remove_def
  cand_def power2_eq_square eval_nat_numeral





lemma sort_key_first_min:
  fixes f :: "'a \<Rightarrow> real"
  assumes "\<forall>d\<in>set pre. f best < f d" and "\<forall>d\<in>set post. f best \<le> f d"
  shows "sort_key f (pre @ best # post) = best # sort_key f (pre @ post)"
  using assms
proof (induction pre)
  case Nil
  then show ?case by (simp add: insort_is_Cons)
next
  case (Cons p ps)
  then have "sort_key f (ps @ best # post) = best # sort_key f (ps @ post)" by simp
  moreover from Cons.prems have "\<not> f p \<le> f best" by simp
  ultimately show ?case by simp
qed

lemma sorted_by_relevance_spec:
  "mset (sorted_by_relevance q cs) = mset cs"
  "sorted_wrt (\<lambda>a b. relevance q b \<le> relevance q a) (sorted_by_relevance q cs)"
  "filter (\<lambda>c. relevance q c = r) (sorted_by_relevance q cs) = filter (\<lambda>c. relevance q c = r) cs"
proof -
  show "mset (sorted_by_relevance q cs) = mset cs"
    by (simp add: sorted_by_relevance_def)
  have "sorted (map (\<lambda>c. - relevance q c) (sorted_by_relevance q cs))"
    by (simp add: sorted_by_relevance_def)
  then show "sorted_wrt (\<lambda>a b. relevance q b \<le> relevance q a) (sorted_by_relevance q cs)"
    by (simp add: sorted_map)
  have "filter (\<lambda>c. - relevance q c = - r) (sort_key (\<lambda>c. - relevance q c) cs)
      = filter (\<lambda>c. - relevance q c = - r) cs"
    by (rule sort_key_stable)
  then show "filter (\<lambda>c. relevance q c = r) (sorted_by_relevance q cs)
      = filter (\<lambda>c. relevance q c = r) cs"
    by (simp add: sorted_by_relevance_def)
qed

lemma mmr_score_relevance:
  assumes "dims_ok q sel" and "length (embedding d) = length q"
  shows "mmr_score q 1 sel d = Inr (relevance q d)"
  using mmr_score_ok [OF assms, of 1] by auto

lemma mmr_loop_relevance:
  "dims_ok q sel \<Longrightarrow> dims_ok q rem \<Longrightarrow>
     \<exists>rem'. mmr_loop q 1 n (sel, rem) = Inr (sel @ take n (sorted_by_relevance q rem), rem')"
proof (induction n arbitrary: sel rem)
  case 0
  show ?case by simp
next
  case (Suc n)
  show ?case
  proof (cases "rem = []")
    case True
    then show ?thesis by (simp add: sorted_by_relevance_def)
  next
    case False
    from mmr_iteration_ok [OF Suc.prems False] obtain st1
      where it: "mmr_iteration q 1 (sel, rem) = Inr st1" ..
    from mmr_iteration_Inr [OF it] obtain pre best post where
      split: "rem = pre @ best # post"
      and st1: "st1 = (sel @ [best], pre @ post)"
      and l: "\<forall>d\<in>set pre. projr (mmr_score q 1 sel d) < projr (mmr_score q 1 sel best)"
      and r: "\<forall>d\<in>set post. projr (mmr_score q 1 sel d) \<le> projr (mmr_score q 1 sel best)"
      by blast
    have sc: "projr (mmr_score q 1 sel d) = relevance q d" if "d \<in> set rem" for d
      using mmr_score_relevance [OF Suc.prems(1) dims_okD [OF Suc.prems(2) that]] by simp
    have l': "\<forall>d\<in>set pre. - relevance q best < - relevance q d" using l sc split by simp
    have r': "\<forall>d\<in>set post. - relevance q best \<le> - relevance q d" using r sc split by simp
    have srt: "sorted_by_relevance q rem = best # sorted_by_relevance q (pre @ post)"
      unfolding sorted_by_relevance_def split using l' r' by (rule sort_key_first_min)
    have d1: "dims_ok q (sel @ [best])" and d2: "dims_ok q (pre @ post)"
      using Suc.prems split by simp_all
    from Suc.IH [OF d1 d2] obtain rem' where
      "mmr_loop q 1 n (sel @ [best], pre @ post)
         = Inr ((sel @ [best]) @ take n (sorted_by_relevance q (pre @ post)), rem')" ..
    with it st1 False srt show ?thesis by simp
  qed
qed











subsection \<open>Range of the cosine\<close>

text \<open>
  The Cauchy-Schwarz inequality for lists bounds the cosine by 1 in absolute value; a
  vector of norm 0 gives 0, and a vector of non-zero norm has cosine 1 with itself.
\<close>

lemma sum_squares_nonneg: "0 \<le> (\<Sum>x\<leftarrow>v. \<bar>x\<bar> ^ 2)" for v :: "real list"
  by (induction v) simp_all

lemma np_norm_nonneg: "0 \<le> np_norm v"
  using sum_squares_nonneg [of v] by (simp add: np_norm_def)

lemma np_norm_Cons: "(np_norm (x # v))\<^sup>2 = x\<^sup>2 + (np_norm v)\<^sup>2"
  using sum_squares_nonneg [of v] sum_squares_nonneg [of "x # v"]
  by (simp add: np_norm_def)

lemma cauchy_two:
  fixes p q r s :: real
  assumes "0 \<le> r" and "0 \<le> s"
  shows "\<bar>p * q\<bar> + r * s \<le> sqrt (p\<^sup>2 + r\<^sup>2) * sqrt (q\<^sup>2 + s\<^sup>2)"
proof -
  have "(\<bar>p * q\<bar> + r * s)\<^sup>2 \<le> (p\<^sup>2 + r\<^sup>2) * (q\<^sup>2 + s\<^sup>2)"
  proof -
    have "(p\<^sup>2 + r\<^sup>2) * (q\<^sup>2 + s\<^sup>2) - (\<bar>p * q\<bar> + r * s)\<^sup>2 = (\<bar>p\<bar> * s - \<bar>q\<bar> * r)\<^sup>2"
      by (simp add: power2_eq_square algebra_simps abs_mult)
    moreover have "0 \<le> (\<bar>p\<bar> * s - \<bar>q\<bar> * r)\<^sup>2" by simp
    ultimately show ?thesis by linarith
  qed
  then have "\<bar>p * q\<bar> + r * s \<le> sqrt ((p\<^sup>2 + r\<^sup>2) * (q\<^sup>2 + s\<^sup>2))"
    by (rule real_le_rsqrt)
  then show ?thesis by (simp add: real_sqrt_mult)
qed

lemma dot_le_norms:
  "length a = length b \<Longrightarrow> \<bar>\<Sum>(x, y)\<leftarrow>zip a b. x * y\<bar> \<le> np_norm a * np_norm b"
proof (induction a b rule: list_induct2)
  case Nil
  show ?case by (simp add: np_norm_def)
next
  case (Cons x xs y ys)
  let ?d = "\<Sum>(x, y)\<leftarrow>zip xs ys. x * y"
  have "\<bar>x * y + ?d\<bar> \<le> \<bar>x * y\<bar> + \<bar>?d\<bar>" by (rule abs_triangle_ineq)
  also have "\<dots> \<le> \<bar>x * y\<bar> + np_norm xs * np_norm ys" using Cons.IH by simp
  also have "\<dots> \<le> sqrt (x\<^sup>2 + (np_norm xs)\<^sup>2) * sqrt (y\<^sup>2 + (np_norm ys)\<^sup>2)"
    by (rule cauchy_two) (rule np_norm_nonneg)+
  also have "\<dots> = np_norm (x # xs) * np_norm (y # ys)"
    by (simp add: np_norm_Cons [symmetric] np_norm_nonneg)
  finally show ?case by simp
qed

lemma cosine_similarity_bounds:
  assumes "cosine_similarity a b = Inr v"
  shows "- 1 \<le> v \<and> v \<le> 1"
proof -
  from assms have len: "length a = length b"
    by (auto simp: cosine_similarity_def np_dot_def split: if_splits)
  show ?thesis
  proof (cases "np_norm a = 0 \<or> np_norm b = 0")
    case True
    with assms len show ?thesis by (auto simp: cosine_similarity_def np_dot_def)
  next
    case False
    with np_norm_nonneg [of a] np_norm_nonneg [of b] have pos: "0 < np_norm a * np_norm b"
      by (simp add: less_le)
    from assms len False have v: "v = (\<Sum>(x, y)\<leftarrow>zip a b. x * y) / (np_norm a * np_norm b)"
      by (auto simp: cosine_similarity_def np_dot_def)
    from dot_le_norms [OF len] pos have "\<bar>v\<bar> \<le> 1" unfolding v by simp
    then show ?thesis by linarith
  qed
qed

lemma cosine_similarity_zero_norm:
  assumes "length a = length b" and "np_norm a = 0 \<or> np_norm b = 0"
  shows "cosine_similarity a b = Inr 0"
  using assms by (auto simp: cosine_similarity_def np_dot_def)

lemma cosine_similarity_self:
  assumes "np_norm a \<noteq> 0"
  shows "cosine_similarity a a = Inr 1"
proof -
  have "(\<Sum>(x, y)\<leftarrow>zip a a. x * y) = (\<Sum>x\<leftarrow>a. \<bar>x\<bar> ^ 2)"
    by (induction a) (simp_all add: power2_eq_square)
  also have "\<dots> = np_norm a * np_norm a"
    using sum_squares_nonneg [of a] by (simp add: np_norm_def)
  finally show ?thesis using assms
    by (simp add: cosine_similarity_def np_dot_def)
qed

section \<open>The similarity primitive\<close>

text \<open>
  C5: the docstring of \<open>_cosine_similarity\<close> and the specification give the range
  0 to 1. The function returns the plain cosine, which is negative for vectors at an obtuse
  angle: for the equal-length vectors \<open>[1]\<close> and \<open>[-1]\<close> it returns \<open>-1\<close>.
  The other two parts of the claim hold (\<open>cosine_similarity_zero_norm\<close>,
  \<open>cosine_similarity_self\<close>), and the value always lies between \<open>-1\<close> and 1
  (\<open>cosine_similarity_bounds\<close>).
\<close>

theorem cosine_similarity_negative:
  "cosine_similarity [1] [-1] = Inr (-1)"
  by (simp add: cosine_similarity_def np_dot_def np_norm_def)

text \<open>
  C7: called with two vectors of different lengths, \<open>_cosine_similarity\<close> raises
  (the \<open>ValueError\<close> of \<open>np.dot\<close>, the specification's InvalidInput) and returns
  no value.
\<close>

theorem cosine_similarity_mismatch:
  "length vec1 \<noteq> length vec2 \<Longrightarrow>
     cosine_similarity vec1 vec2 = Inl ValueError \<and> (\<forall>v. cosine_similarity vec1 vec2 \<noteq> Inr v)"
  by (simp add: cosine_similarity_def np_dot_def)

theorem cosine_similarity_mismatch_witness:
  "length [1::real, 2] \<noteq> length [1::real, 2, 3] \<and>
   cosine_similarity [1, 2] [1, 2, 3] = Inl ValueError \<and>
   (\<forall>v. cosine_similarity [1, 2] [1, 2, 3] \<noteq> Inr v)"
  using cosine_similarity_mismatch [of "[1, 2]" "[1, 2, 3]"] by simp

section \<open>The re-ranking loop\<close>



text \<open>
  C4: a selection round that succeeds splits \<open>remaining\<close> around the chosen
  document: every document before it scores strictly less, every document after it scores
  at most as much. Among the documents with the maximal MMR score the earliest one in
  \<open>remaining\<close> is therefore selected, and it is that position which is removed.
\<close>

theorem mmr_tie_break:
  assumes "mmr_iteration q lam (selected, remaining) = Inr (selected', remaining')"
  shows "\<exists>pre best post s. remaining = pre @ best # post
      \<and> selected' = selected @ [best] \<and> remaining' = pre @ post
      \<and> mmr_score q lam selected best = Inr s
      \<and> (\<forall>d\<in>set pre. \<exists>v. mmr_score q lam selected d = Inr v \<and> v < s)
      \<and> (\<forall>d\<in>set post. \<exists>v. mmr_score q lam selected d = Inr v \<and> v \<le> s)"
proof -
  let ?g = "\<lambda>d. projr (mmr_score q lam selected d)"
  from mmr_iteration_Inr [OF assms] obtain pre best post where
    split: "remaining = pre @ best # post"
    and st: "(selected', remaining') = (selected @ [best], pre @ post)"
    and ok: "\<forall>d\<in>set remaining. mmr_score q lam selected d = Inr (?g d)"
    and l: "\<forall>d\<in>set pre. ?g d < ?g best"
    and r: "\<forall>d\<in>set post. ?g d \<le> ?g best" by blast
  have "mmr_score q lam selected best = Inr (?g best)" using ok split by simp
  moreover have "\<forall>d\<in>set pre. \<exists>v. mmr_score q lam selected d = Inr v \<and> v < ?g best"
    using ok l split by auto
  moreover have "\<forall>d\<in>set post. \<exists>v. mmr_score q lam selected d = Inr v \<and> v \<le> ?g best"
    using ok r split by auto
  ultimately show ?thesis using split st by blast
qed

theorem mmr_tie_break_witness:
  "mmr_iteration [1, 0] (1/2) ([cand ''A'' [1, 0]], [cand ''B'' [4/5, 3/5], cand ''C'' [0, 1]])
     = Inr ([cand ''A'' [1, 0], cand ''B'' [4/5, 3/5]], [cand ''C'' [0, 1]])
   \<and> mmr_score [1, 0] (1/2) [cand ''A'' [1, 0]] (cand ''B'' [4/5, 3/5]) = Inr 0
   \<and> mmr_score [1, 0] (1/2) [cand ''A'' [1, 0]] (cand ''C'' [0, 1]) = Inr 0
   \<and> (\<exists>pre best post s. [cand ''B'' [4/5, 3/5], cand ''C'' [0, 1]] = pre @ best # post
      \<and> [cand ''A'' [1, 0], cand ''B'' [4/5, 3/5]] = [cand ''A'' [1, 0]] @ [best]
      \<and> [cand ''C'' [0, 1]] = pre @ post
      \<and> mmr_score [1, 0] (1/2) [cand ''A'' [1, 0]] best = Inr s
      \<and> (\<forall>d\<in>set pre. \<exists>v. mmr_score [1, 0] (1/2) [cand ''A'' [1, 0]] d = Inr v \<and> v < s)
      \<and> (\<forall>d\<in>set post. \<exists>v. mmr_score [1, 0] (1/2) [cand ''A'' [1, 0]] d = Inr v \<and> v \<le> s))"
proof -
  have it: "mmr_iteration [1, 0] (1/2) ([cand ''A'' [1, 0]], [cand ''B'' [4/5, 3/5], cand ''C'' [0, 1]])
     = Inr ([cand ''A'' [1, 0], cand ''B'' [4/5, 3/5]], [cand ''C'' [0, 1]])"
    by (simp add: mmr_eval)
  have b: "mmr_score [1, 0] (1/2) [cand ''A'' [1, 0]] (cand ''B'' [4/5, 3/5]) = Inr 0"
    by (simp add: mmr_eval)
  have c: "mmr_score [1, 0] (1/2) [cand ''A'' [1, 0]] (cand ''C'' [0, 1]) = Inr 0"
    by (simp add: mmr_eval)
  from mmr_tie_break [OF it] it b c show ?thesis by blast
qed

text \<open>
  C6: whatever \<open>_mmr_rerank\<close> returns is a sub-multiset of its input: every element
  of the result stands for an input position of its own, so an entry occurs in the result
  at most as often as in the pool, and a pool without repetitions gives a result without
  repetitions.
\<close>

theorem mmr_rerank_no_duplicates:
  assumes "mmr_rerank q cs top_k lam = Inr res"
  shows "mset res \<subseteq># mset cs \<and> (distinct cs \<longrightarrow> distinct res)"
proof -
  from mmr_rerank_Inr(1) [OF assms] obtain rem' where "mset res + mset rem' = mset cs" ..
  then have sub: "mset res \<subseteq># mset cs" by (metis mset_subset_eq_add_left)
  have "distinct res" if "distinct cs"
  proof -
    have "count (mset res) a \<le> 1" for a
    proof -
      have "count (mset res) a \<le> count (mset cs) a" using sub by (rule mset_subset_eq_count)
      also have "\<dots> \<le> 1" using that by (simp add: distinct_count_atmost_1)
      finally show ?thesis .
    qed
    then show ?thesis
      by (metis count_greater_zero_iff distinct_count_atmost_1 le_antisym less_one linorder_not_less
          set_mset_mset not_in_iff)
  qed
  with sub show ?thesis by blast
qed

theorem mmr_rerank_no_duplicates_witness:
  "mmr_rerank [1, 0] [cand ''A'' [1, 0], cand ''B'' [4/5, 3/5], cand ''C'' [0, 1]] 2 (2/5)
     = Inr [cand ''A'' [1, 0], cand ''C'' [0, 1]]
   \<and> mset [cand ''A'' [1, 0], cand ''C'' [0, 1]]
        \<subseteq># mset [cand ''A'' [1, 0], cand ''B'' [4/5, 3/5], cand ''C'' [0, 1]]
   \<and> distinct [cand ''A'' [1, 0], cand ''B'' [4/5, 3/5], cand ''C'' [0, 1]]
   \<and> distinct [cand ''A'' [1, 0], cand ''C'' [0, 1]]"
proof -
  have r: "mmr_rerank [1, 0] [cand ''A'' [1, 0], cand ''B'' [4/5, 3/5], cand ''C'' [0, 1]] 2 (2/5)
     = Inr [cand ''A'' [1, 0], cand ''C'' [0, 1]]"
    by (simp add: mmr_eval)
  have d: "distinct [cand ''A'' [1, 0], cand ''B'' [4/5, 3/5], cand ''C'' [0, 1]]"
    by (simp add: cand_def)
  from mmr_rerank_no_duplicates [OF r] r d show ?thesis by blast
qed

text \<open>
  C2: for every query embedding, pool, trade-off parameter and non-negative \<open>top_k\<close>,
  a list returned by \<open>_mmr_rerank\<close> has length exactly
  \<open>min(top_k, len(candidates))\<close>; and \<open>_mmr_rerank\<close> does return when the
  embeddings of the pool have the query's dimension (otherwise \<open>np.dot\<close> may raise).
\<close>

theorem mmr_rerank_length:
  assumes "0 \<le> top_k"
  shows "(\<forall>res. mmr_rerank q cs top_k lam = Inr res \<longrightarrow>
            int (length res) = min top_k (int (length cs)))
       \<and> (dims_ok q cs \<longrightarrow> (\<exists>res. mmr_rerank q cs top_k lam = Inr res))"
proof -
  have "int (length res) = min top_k (int (length cs))"
    if r: "mmr_rerank q cs top_k lam = Inr res" for res
    using mmr_rerank_Inr(2) [OF r] assms
    by (auto simp: py_range_len_def min_def split: if_splits)
  moreover have "\<exists>res. mmr_rerank q cs top_k lam = Inr res" if "dims_ok q cs"
    using that by (rule mmr_rerank_ok)
  ultimately show ?thesis by blast
qed

theorem mmr_rerank_length_witness:
  "(0::int) \<le> 2
   \<and> dims_ok [1, 0] [cand ''A'' [1, 0], cand ''B'' [4/5, 3/5], cand ''C'' [0, 1]]
   \<and> mmr_rerank [1, 0] [cand ''A'' [1, 0], cand ''B'' [4/5, 3/5], cand ''C'' [0, 1]] 2 (7/10)
       = Inr [cand ''A'' [1, 0], cand ''B'' [4/5, 3/5]]
   \<and> int (length [cand ''A'' [1, 0], cand ''B'' [4/5, 3/5]])
       = min 2 (int (length [cand ''A'' [1, 0], cand ''B'' [4/5, 3/5], cand ''C'' [0, 1]]))"
proof -
  have h: "(0::int) \<le> 2" by simp
  have d: "dims_ok [1, 0] [cand ''A'' [1, 0], cand ''B'' [4/5, 3/5], cand ''C'' [0, 1]]"
    by (simp add: cand_def)
  have r: "mmr_rerank [1, 0] [cand ''A'' [1, 0], cand ''B'' [4/5, 3/5], cand ''C'' [0, 1]] 2 (7/10)
       = Inr [cand ''A'' [1, 0], cand ''B'' [4/5, 3/5]]"
    by (simp add: mmr_eval)
  from mmr_rerank_length [OF h, of "[1, 0]"
      "[cand ''A'' [1, 0], cand ''B'' [4/5, 3/5], cand ''C'' [0, 1]]" "7/10"] h d r
  show ?thesis by blast
qed




section \<open>Orderings produced by the re-ranker\<close>




text \<open>
  C3: at \<open>lambda = 1\<close> the greedy loop is the stable sort by descending relevance
  (\<open>sorted_by_relevance\<close>, characterised by \<open>sorted_by_relevance_spec\<close>). For a pool
  whose embeddings have the query's dimension, \<open>_mmr_rerank\<close> returns the first
  \<open>top_k\<close> entries of the sorted pool, and the whole sorted pool once \<open>top_k\<close>
  reaches its size.
\<close>

theorem mmr_rerank_pure_relevance:
  assumes "dims_ok q cs"
  shows "mmr_rerank q cs top_k 1 = Inr (take (py_range_len top_k) (sorted_by_relevance q cs))
       \<and> (int (length cs) \<le> top_k \<longrightarrow> mmr_rerank q cs top_k 1 = Inr (sorted_by_relevance q cs))"
proof -
  have len: "length (sorted_by_relevance q cs) = length cs"
    by (simp add: sorted_by_relevance_def)
  have tk: "take (py_range_len (min top_k (int (length cs)))) (sorted_by_relevance q cs)
      = take (py_range_len top_k) (sorted_by_relevance q cs)"
    using len by (auto simp: py_range_len_def min_def)
  have main: "mmr_rerank q cs top_k 1 = Inr (take (py_range_len top_k) (sorted_by_relevance q cs))"
  proof (cases "cs = []")
    case True
    then show ?thesis by (simp add: mmr_rerank_def sorted_by_relevance_def)
  next
    case False
    have d0: "dims_ok q []" by simp
    from mmr_loop_relevance [OF d0 assms, of "py_range_len (min top_k (int (length cs)))"]
    obtain rem' where "mmr_loop q 1 (py_range_len (min top_k (int (length cs)))) ([], cs)
        = Inr ([] @ take (py_range_len (min top_k (int (length cs)))) (sorted_by_relevance q cs), rem')" ..
    with False tk show ?thesis by (simp add: mmr_rerank_def)
  qed
  moreover have "take (py_range_len top_k) (sorted_by_relevance q cs) = sorted_by_relevance q cs"
    if "int (length cs) \<le> top_k"
  proof (cases "top_k \<le> 0")
    case True
    with that have "int (length cs) \<le> 0" by linarith
    then have "cs = []" by simp
    then show ?thesis by (simp add: sorted_by_relevance_def)
  next
    case False
    with that len show ?thesis by (simp add: py_range_len_def)
  qed
  ultimately show ?thesis by simp
qed

theorem mmr_rerank_pure_relevance_witness:
  "dims_ok [1, 0] [cand ''C1'' [0, 1], cand ''C2'' [4/5, 3/5], cand ''C3'' [1, 0],
                   cand ''C4'' [4/5, -3/5], cand ''C5'' [3/5, 4/5]]
   \<and> sorted_by_relevance [1, 0] [cand ''C1'' [0, 1], cand ''C2'' [4/5, 3/5], cand ''C3'' [1, 0],
                   cand ''C4'' [4/5, -3/5], cand ''C5'' [3/5, 4/5]]
       = [cand ''C3'' [1, 0], cand ''C2'' [4/5, 3/5], cand ''C4'' [4/5, -3/5],
          cand ''C5'' [3/5, 4/5], cand ''C1'' [0, 1]]
   \<and> mmr_rerank [1, 0] [cand ''C1'' [0, 1], cand ''C2'' [4/5, 3/5], cand ''C3'' [1, 0],
                   cand ''C4'' [4/5, -3/5], cand ''C5'' [3/5, 4/5]] 2 1
       = Inr [cand ''C3'' [1, 0], cand ''C2'' [4/5, 3/5]]
   \<and> int (length [cand ''C1'' [0, 1], cand ''C2'' [4/5, 3/5], cand ''C3'' [1, 0],
                   cand ''C4'' [4/5, -3/5], cand ''C5'' [3/5, 4/5]]) \<le> 5
   \<and> mmr_rerank [1, 0] [cand ''C1'' [0, 1], cand ''C2'' [4/5, 3/5], cand ''C3'' [1, 0],
                   cand ''C4'' [4/5, -3/5], cand ''C5'' [3/5, 4/5]] 5 1
       = Inr [cand ''C3'' [1, 0], cand ''C2'' [4/5, 3/5], cand ''C4'' [4/5, -3/5],
          cand ''C5'' [3/5, 4/5], cand ''C1'' [0, 1]]"
proof -
  let ?cs = "[cand ''C1'' [0, 1], cand ''C2'' [4/5, 3/5], cand ''C3'' [1, 0],
              cand ''C4'' [4/5, -3/5], cand ''C5'' [3/5, 4/5]]"
  have h: "dims_ok [1, 0] ?cs" by (simp add: cand_def)
  have l: "int (length ?cs) \<le> 5" by simp
  have s: "sorted_by_relevance [1, 0] ?cs
       = [cand ''C3'' [1, 0], cand ''C2'' [4/5, 3/5], cand ''C4'' [4/5, -3/5],
          cand ''C5'' [3/5, 4/5], cand ''C1'' [0, 1]]"
    by (simp add: sorted_by_relevance_def relevance_def cosine_def np_norm_def cand_def
        power2_eq_square)
  have t: "take (py_range_len 2) [cand ''C3'' [1, 0], cand ''C2'' [4/5, 3/5], cand ''C4'' [4/5, -3/5],
          cand ''C5'' [3/5, 4/5], cand ''C1'' [0, 1]] = [cand ''C3'' [1, 0], cand ''C2'' [4/5, 3/5]]"
    by (simp add: py_range_len_def eval_nat_numeral)
  from mmr_rerank_pure_relevance [OF h, of 2]
  have a: "mmr_rerank [1, 0] ?cs 2 1 = Inr (take (py_range_len 2) (sorted_by_relevance [1, 0] ?cs))"
    by blast
  from mmr_rerank_pure_relevance [OF h, of 5] l
  have b: "mmr_rerank [1, 0] ?cs 5 1 = Inr (sorted_by_relevance [1, 0] ?cs)"
    by blast
  from h s a [unfolded s t] l b [unfolded s] show ?thesis by blast
qed

section \<open>The retrieval facade\<close>

text \<open>
  C9: when the embedding provider raises, \<open>semantic_search\<close> fails with that very
  exception (\<open>EmbeddingUnavailable\<close> when this is what the provider raised), and the
  only call it has made is the one to the provider: no aggregation is sent to the vector
  index.
\<close>

theorem semantic_search_embedding_failure:
  assumes "generate_embedding svc query = Inl e"
  shows "fst (semantic_search svc query filters top_k use_mmr lam) = Inl e
       \<and> snd (semantic_search svc query filters top_k use_mmr lam) = [EmbedCall query]
       \<and> (\<forall>p. AggregateCall p \<notin> set (snd (semantic_search svc query filters top_k use_mmr lam)))"
  using assms by (simp add: semantic_search_def Let_def)

theorem semantic_search_embedding_failure_witness:
  "generate_embedding
      \<lparr>generate_embedding = (\<lambda>t. Inl EmbeddingUnavailable),
       aggregate = (\<lambda>p::string stage list. Inr []), default_top_k = 5\<rparr>
      ''pix refund'' = Inl EmbeddingUnavailable
   \<and> semantic_search
      \<lparr>generate_embedding = (\<lambda>t. Inl EmbeddingUnavailable),
       aggregate = (\<lambda>p::string stage list. Inr []), default_top_k = 5\<rparr>
      ''pix refund'' None None True (7/10)
     = (Inl EmbeddingUnavailable, [EmbedCall ''pix refund''])"
proof -
  let ?svc = "\<lparr>generate_embedding = (\<lambda>t. Inl EmbeddingUnavailable),
       aggregate = (\<lambda>p::string stage list. Inr []), default_top_k = 5\<rparr>"
  have h: "generate_embedding ?svc ''pix refund'' = Inl EmbeddingUnavailable" by simp
  from semantic_search_embedding_failure [OF h, of None None True "7/10"]
  have "semantic_search ?svc ''pix refund'' None None True (7/10)
      = (Inl EmbeddingUnavailable, [EmbedCall ''pix refund''])"
    by (simp add: prod_eq_iff)
  with h show ?thesis by blast
qed

end
